theory Spec2Isabelle
  imports Complex_Main
begin

chapter \<open>The Paillier library \<open>phe/paillier.py\<close>: model and properties\<close>

text \<open>
  Python integers are unbounded and are modelled by \<open>int\<close>; \<open>//\<close> and \<open>%\<close> are
  floor division and its remainder, which is what \<open>div\<close> and \<open>mod\<close> are on \<open>int\<close>.
  An exception is a value of \<open>py_error\<close>; a function that can raise returns
  \<open>py_error + 'a\<close>. Lists and numpy arrays of residues are lists.
\<close>

section \<open>Errors and sequence access\<close>

datatype py_error =
  TypeError | ValueError | ZeroDivisionError | IndexError | NotImplementedError
  | AssertionError

text \<open>
  A list comprehension or a loop that builds a list, whose body can raise: the
  elements in order, or the first error.
\<close>

fun map_result :: "('a \<Rightarrow> py_error + 'b) \<Rightarrow> 'a list \<Rightarrow> py_error + 'b list" where
  "map_result f [] = Inr []"
| "map_result f (x # xs) =
     (case f x of
        Inl e \<Rightarrow> Inl e
      | Inr y \<Rightarrow> (case map_result f xs of Inl e \<Rightarrow> Inl e | Inr ys \<Rightarrow> Inr (y # ys)))"

text \<open>
  \<open>xs[i]\<close> for a list or a one-dimensional array: a negative index counts from the
  end, an index outside the sequence raises \<open>IndexError\<close>.
\<close>

definition getitem :: "'a list \<Rightarrow> int \<Rightarrow> py_error + 'a" where
  "getitem xs i =
     (let len = int (length xs); j = (if i < 0 then len + i else i)
      in if 0 \<le> j \<and> j < len then Inr (xs ! nat j) else Inl IndexError)"

section \<open>The random source\<close>

text \<open>
  \<open>randint\<close>, \<open>randrange\<close> and \<open>getprimeover\<close> read the system's random source. A run
  of the program fixes the sequence of values these calls return; \<open>rng\<close> is that
  sequence for \<open>randint\<close> and \<open>randrange\<close>, consumed from the front. A function that
  draws returns the rest of the sequence with its result.
\<close>

type_synonym rng = "nat \<Rightarrow> int"

definition rng_next :: "rng \<Rightarrow> rng" where
  "rng_next rs = (\<lambda>i. rs (Suc i))"

section \<open>Number-theory utilities (\<open>phe/util.py\<close>)\<close>

text \<open>
  Modelled from the spec: \<open>phe/util.py\<close> is not among the sources. Section 4.1 of the
  spec gives \<open>powmod(base, exp, mod)\<close> as modular exponentiation, \<open>invert(a, m)\<close> as the
  modular inverse of \<open>a\<close> mod \<open>m\<close>, which fails when there is none, \<open>isqrt\<close> as the
  exact floor integer square root, and \<open>mul_mod\<close>, \<open>mod\<close>, \<open>mul\<close> and \<open>mul_mod_new\<close> as
  multiply and reduce, numerically \<open>(a * b) mod m\<close>. Every exponent the library passes
  to \<open>powmod\<close> is non-negative for positive primes.
\<close>

definition powmod :: "int \<Rightarrow> int \<Rightarrow> int \<Rightarrow> int" where
  "powmod b e m = (b ^ nat e) mod m"

definition invert :: "int \<Rightarrow> int \<Rightarrow> py_error + int" where
  "invert a m =
     (case List.find (\<lambda>x. (a * x) mod m = 1) [0..m - 1] of
        None \<Rightarrow> Inl ZeroDivisionError
      | Some x \<Rightarrow> Inr x)"

definition mul :: "int \<Rightarrow> int \<Rightarrow> int" where
  "mul a b = a * b"

definition mod_py :: "int \<Rightarrow> int \<Rightarrow> int" where
  "mod_py a m = a mod m"

definition mul_mod :: "int \<Rightarrow> int \<Rightarrow> int \<Rightarrow> int" where
  "mul_mod a b m = (a * b) mod m"


fun isqrt_nat :: "nat \<Rightarrow> nat" where
  "isqrt_nat 0 = 0"
| "isqrt_nat (Suc k) =
     (let r = isqrt_nat k in if Suc r * Suc r \<le> Suc k then Suc r else r)"

definition isqrt :: "int \<Rightarrow> py_error + int" where
  "isqrt x = (if x < 0 then Inl ValueError else Inr (int (isqrt_nat (nat x))))"

text \<open>
  Modelled from the spec: \<open>libnum.invmod\<close>, the vendored library's modular inverse
  (section 6 of the spec), used once in \<open>generate_keys\<close>.
\<close>

definition invmod :: "int \<Rightarrow> int \<Rightarrow> py_error + int" where
  "invmod a m = invert a m"

text \<open>\<open>int.bit_length()\<close>: the number of binary digits of the magnitude.\<close>

function bit_length_nat :: "nat \<Rightarrow> nat" where
  "bit_length_nat k = (if k = 0 then 0 else Suc (bit_length_nat (k div 2)))"
  by pat_completeness auto
termination
  by (relation "measure id") auto

declare bit_length_nat.simps [simp del]

definition bit_length :: "int \<Rightarrow> int" where
  "bit_length x = int (bit_length_nat (nat \<bar>x\<bar>))"

section \<open>Encoding (\<open>phe/encoding.py\<close>)\<close>

record EncodedNumber =
  enc_n :: int
  enc_max_int :: int
  enc_encoding :: int
  enc_exponent :: int

record EncodedVector =
  encv_n :: int
  encv_max_int :: int
  encv_encoding :: "int list"
  encv_exponent :: int




text \<open>
  Modelled from the spec: the vector variant applies the same algorithm jointly
  across all elements, with one shared exponent; for integers that exponent is the
  scalar one, and encoding fails when any element is out of range.
\<close>

definition EncodedVector_encode ::
  "int \<Rightarrow> int \<Rightarrow> int \<Rightarrow> int list \<Rightarrow> int option \<Rightarrow> py_error + EncodedVector" where
  "EncodedVector_encode B n max_int scalars max_exponent =
     (let exponent = (case max_exponent of None \<Rightarrow> 0 | Some me \<Rightarrow> min me 0);
          int_reps = map (\<lambda>s. s * B ^ nat (- exponent)) scalars
      in if list_ex (\<lambda>r. \<bar>r\<bar> > max_int) int_reps then Inl ValueError
         else Inr \<lparr>encv_n = n, encv_max_int = max_int,
                   encv_encoding = map (\<lambda>r. if r < 0 then n - \<bar>r\<bar> else r) int_reps,
                   encv_exponent = exponent\<rparr>)"


section \<open>Keys\<close>

record PaillierPublicKey =
  pk_g :: int
  pk_n :: int
  pk_nsquare :: int
  pk_max_int :: int
  pk_r_pow_n_l :: "int list option"
  pk_noise :: int
  pk_n_length :: int

record PaillierPrivateKey =
  sk_public_key :: PaillierPublicKey
  sk_p :: int
  sk_q :: int
  sk_psquare :: int
  sk_qsquare :: int
  sk_p_inverse :: int
  sk_hp :: int
  sk_hq :: int

text \<open>\<open>PaillierPublicKey.__init__(n, r_pow_n_l, n_length, noise)\<close>.\<close>

definition PaillierPublicKey_init ::
  "int \<Rightarrow> int list option \<Rightarrow> int \<Rightarrow> int \<Rightarrow> PaillierPublicKey" where
  "PaillierPublicKey_init n r_pow_n_l n_length noise =
     \<lparr>pk_g = n + 1, pk_n = n, pk_nsquare = n * n, pk_max_int = n div 3 - 1,
      pk_r_pow_n_l = r_pow_n_l, pk_noise = noise, pk_n_length = n_length\<rparr>"

text \<open>\<open>l_function(x, p) = (x - 1) // p\<close>; the division raises for \<open>p = 0\<close>.\<close>

definition l_function :: "int \<Rightarrow> int \<Rightarrow> py_error + int" where
  "l_function x p = (if p = 0 then Inl ZeroDivisionError else Inr ((x - 1) div p))"

definition h_function :: "PaillierPublicKey \<Rightarrow> int \<Rightarrow> int \<Rightarrow> py_error + int" where
  "h_function pub x xsquare =
     (case l_function (powmod (pk_g pub) (x - 1) xsquare) x of
        Inl e \<Rightarrow> Inl e
      | Inr l \<Rightarrow> invert l x)"

text \<open>\<open>PaillierPrivateKey.__init__(public_key, p, q)\<close>.\<close>

definition PaillierPrivateKey_init ::
  "PaillierPublicKey \<Rightarrow> int \<Rightarrow> int \<Rightarrow> py_error + PaillierPrivateKey" where
  "PaillierPrivateKey_init pub p q =
     (if p * q \<noteq> pk_n pub then Inl ValueError
      else if p = q then Inl ValueError
      else
        let p' = (if q < p then q else p);
            q' = (if q < p then p else q);
            psquare = p' * p';
            qsquare = q' * q'
        in case invert p' q' of
             Inl e \<Rightarrow> Inl e
           | Inr p_inverse \<Rightarrow>
               (case h_function pub p' psquare of
                  Inl e \<Rightarrow> Inl e
                | Inr hp \<Rightarrow>
                    (case h_function pub q' qsquare of
                       Inl e \<Rightarrow> Inl e
                     | Inr hq \<Rightarrow>
                         Inr \<lparr>sk_public_key = pub, sk_p = p', sk_q = q',
                              sk_psquare = psquare, sk_qsquare = qsquare,
                              sk_p_inverse = p_inverse, sk_hp = hp, sk_hq = hq\<rparr>)))"

text \<open>\<open>PaillierPrivateKey.from_totient(public_key, totient)\<close>.\<close>

definition from_totient :: "PaillierPublicKey \<Rightarrow> int \<Rightarrow> py_error + PaillierPrivateKey" where
  "from_totient pub totient =
     (let p_plus_q = pk_n pub - totient + 1
      in case isqrt (p_plus_q * p_plus_q - pk_n pub * 4) of
           Inl e \<Rightarrow> Inl e
         | Inr p_minus_q \<Rightarrow>
             (let q = (p_plus_q - p_minus_q) div 2;
                  p = p_plus_q - q
              in if p * q \<noteq> pk_n pub then Inl ValueError
                 else PaillierPrivateKey_init pub p q))"


section \<open>Public key operations\<close>

record EncryptedNumber =
  ct_n :: int
  ct_nsquare :: int
  ct_max_int :: int
  ct_ciphertext :: int
  ct_exponent :: int

record EncryptedVector =
  vec_n :: int
  vec_nsquare :: int
  vec_max_int :: int
  vec_ciphertext :: "int list"
  vec_exponent :: int

text \<open>
  The unobfuscated ciphertext of a plaintext. \<open>PaillierPublicKey.raw_encrypt\<close>,
  \<open>EncryptedNumber._raw_encrypt\<close> and the loop body of
  \<open>EncryptedVector._raw_encrypt\<close> hold the same statements, over the fields \<open>n\<close>,
  \<open>nsquare\<close> and \<open>max_int\<close> of their object.
\<close>

definition nude_ciphertext :: "int \<Rightarrow> int \<Rightarrow> int \<Rightarrow> int \<Rightarrow> py_error + int" where
  "nude_ciphertext n nsquare max_int plaintext =
     (if n - max_int \<le> plaintext \<and> plaintext < n then
        (let neg_plaintext = n - plaintext;
             neg_ciphertext = mod_py (mul n neg_plaintext + 1) nsquare
         in invert neg_ciphertext nsquare)
      else Inr (mod_py (mul n plaintext + 1) nsquare))"

text \<open>
  The loop \<open>for _ in range(self.noise)\<close> of \<open>raw_encrypt\<close>: each round draws an index
  (\<open>randint(1, 16383)\<close>) and multiplies the table entry in.
\<close>

fun table_obfuscator :: "int list \<Rightarrow> int \<Rightarrow> nat \<Rightarrow> int \<Rightarrow> rng \<Rightarrow> py_error + int \<times> rng" where
  "table_obfuscator r_pow_n_l nsquare 0 obfuscator rs = Inr (obfuscator, rs)"
| "table_obfuscator r_pow_n_l nsquare (Suc k) obfuscator rs =
     (case getitem r_pow_n_l (rs 0) of
        Inl e \<Rightarrow> Inl e
      | Inr entry \<Rightarrow>
          table_obfuscator r_pow_n_l nsquare k (mul_mod obfuscator entry nsquare) (rng_next rs))"

text \<open>\<open>get_random_lt_n\<close>: \<open>randrange(1, n)\<close>, which raises on an empty range.\<close>

definition get_random_lt_n :: "PaillierPublicKey \<Rightarrow> rng \<Rightarrow> py_error + int \<times> rng" where
  "get_random_lt_n pub rs =
     (if pk_n pub \<le> 1 then Inl ValueError else Inr (rs 0, rng_next rs))"

text \<open>
  \<open>raw_encrypt(plaintext, r_value)\<close>. The plaintext is an \<open>int\<close> by its type, so the
  \<open>TypeError\<close> of the source cannot arise. \<open>if self.r_pow_n_l\<close> holds for a table
  that is given and not empty.
\<close>

definition raw_encrypt ::
  "PaillierPublicKey \<Rightarrow> int \<Rightarrow> int option \<Rightarrow> rng \<Rightarrow> py_error + int \<times> rng" where
  "raw_encrypt pub plaintext r_value rs =
     (case nude_ciphertext (pk_n pub) (pk_nsquare pub) (pk_max_int pub) plaintext of
        Inl e \<Rightarrow> Inl e
      | Inr nude \<Rightarrow>
          (case (case pk_r_pow_n_l pub of
                   Some (t # ts) \<Rightarrow>
                     table_obfuscator (t # ts) (pk_nsquare pub) (nat (pk_noise pub)) 1 rs
                 | _ \<Rightarrow>
                     (case get_random_lt_n pub rs of
                        Inl e \<Rightarrow> Inl e
                      | Inr (r, rs') \<Rightarrow> Inr (powmod r (pk_n pub) (pk_nsquare pub), rs'))) of
             Inl e \<Rightarrow> Inl e
           | Inr (obfuscator, rs') \<Rightarrow> Inr (mul_mod nude obfuscator (pk_nsquare pub), rs')))"

text \<open>\<open>encrypt_encoded(encoding, r_value)\<close>; \<open>r_value or 1\<close> is 1 for \<open>None\<close> and for 0.\<close>

definition encrypt_encoded ::
  "PaillierPublicKey \<Rightarrow> EncodedNumber \<Rightarrow> int option \<Rightarrow> rng \<Rightarrow> py_error + EncryptedNumber \<times> rng" where
  "encrypt_encoded pub encoding r_value rs =
     (let obfuscator = (case r_value of None \<Rightarrow> 1 | Some r \<Rightarrow> if r = 0 then 1 else r)
      in case raw_encrypt pub (enc_encoding encoding) (Some obfuscator) rs of
           Inl e \<Rightarrow> Inl e
         | Inr (ciphertext, rs') \<Rightarrow>
             Inr (\<lparr>ct_n = pk_n pub, ct_nsquare = pk_nsquare pub, ct_max_int = pk_max_int pub,
                   ct_ciphertext = ciphertext, ct_exponent = enc_exponent encoding\<rparr>, rs'))"







section \<open>Private key operations\<close>









section \<open>\<open>EncryptedNumber\<close>: the scalar ciphertext\<close>


text \<open>
  The body shared by \<open>EncryptedNumber._raw_mul(plaintext)\<close>, which reads
  \<open>self.ciphertext\<close>, and \<open>EncryptedVector._raw_mul_2(ciphertext, plaintext)\<close>.
\<close>

definition raw_mul_residue :: "int \<Rightarrow> int \<Rightarrow> int \<Rightarrow> int \<Rightarrow> int \<Rightarrow> py_error + int" where
  "raw_mul_residue n nsquare max_int ciphertext plaintext =
     (if plaintext < 0 \<or> plaintext \<ge> n then Inl ValueError
      else if n - max_int \<le> plaintext then
        (case invert ciphertext nsquare of
           Inl e \<Rightarrow> Inl e
         | Inr neg_c \<Rightarrow> Inr (powmod neg_c (n - plaintext) nsquare))
      else Inr (powmod ciphertext plaintext nsquare))"










section \<open>\<open>EncryptedVector\<close>: the vector ciphertext\<close>

text \<open>
  The operand of the vector's \<open>*\<close>: an \<open>EncryptedVector\<close>, a scalar (\<open>np.isscalar\<close>) or
  an array of integers.
\<close>

datatype vector_operand = VecEncrypted EncryptedVector | VecScalar int | VecArray "int list"

definition EncryptedVector_raw_mul_2 :: "EncryptedVector \<Rightarrow> int \<Rightarrow> int \<Rightarrow> py_error + int" where
  "EncryptedVector_raw_mul_2 self ciphertext plaintext =
     raw_mul_residue (vec_n self) (vec_nsquare self) (vec_max_int self) ciphertext plaintext"

definition EncryptedVector_raw_add :: "EncryptedVector \<Rightarrow> int \<Rightarrow> int \<Rightarrow> int" where
  "EncryptedVector_raw_add self e_a e_b = mul_mod e_a e_b (vec_nsquare self)"

definition EncryptedVector_mul ::
  "int \<Rightarrow> EncryptedVector \<Rightarrow> vector_operand \<Rightarrow> py_error + EncryptedVector" where
  "EncryptedVector_mul B self other =
     (case other of
        VecEncrypted _ \<Rightarrow> Inl NotImplementedError
      | VecScalar s \<Rightarrow>
          (case EncodedVector_encode B (vec_n self) (vec_max_int self) [s] None of
             Inl e \<Rightarrow> Inl e
           | Inr encoding \<Rightarrow>
               (case map_result
                       (\<lambda>cipher. case getitem (encv_encoding encoding) 0 of
                                    Inl e \<Rightarrow> Inl e
                                  | Inr k \<Rightarrow> EncryptedVector_raw_mul_2 self cipher k)
                       (vec_ciphertext self) of
                  Inl e \<Rightarrow> Inl e
                | Inr product \<Rightarrow>
                    Inr \<lparr>vec_n = vec_n self, vec_nsquare = vec_nsquare self,
                         vec_max_int = vec_max_int self, vec_ciphertext = product,
                         vec_exponent = vec_exponent self + encv_exponent encoding\<rparr>))
      | VecArray xs \<Rightarrow>
          (if length xs = length (vec_ciphertext self) then
             (case EncodedVector_encode B (vec_n self) (vec_max_int self) xs None of
                Inl e \<Rightarrow> Inl e
              | Inr encodings \<Rightarrow>
                  (case map_result
                          (\<lambda>i. case getitem (encv_encoding encodings) (int i) of
                                  Inl e \<Rightarrow> Inl e
                                | Inr k \<Rightarrow> EncryptedVector_raw_mul_2 self (vec_ciphertext self ! i) k)
                          [0..<length (vec_ciphertext self)] of
                     Inl e \<Rightarrow> Inl e
                   | Inr product \<Rightarrow>
                       Inr \<lparr>vec_n = vec_n self, vec_nsquare = vec_nsquare self,
                            vec_max_int = vec_max_int self, vec_ciphertext = product,
                            vec_exponent = vec_exponent self + encv_exponent encodings\<rparr>))
           else Inl TypeError))"

definition EncryptedVector_decrease_exponent_to ::
  "int \<Rightarrow> EncryptedVector \<Rightarrow> int \<Rightarrow> py_error + EncryptedVector" where
  "EncryptedVector_decrease_exponent_to B self new_exp =
     (if new_exp > vec_exponent self then Inl ValueError
      else case EncryptedVector_mul B self (VecScalar (B ^ nat (vec_exponent self - new_exp))) of
             Inl e \<Rightarrow> Inl e
           | Inr multiplied \<Rightarrow> Inr (multiplied\<lparr>vec_exponent := new_exp\<rparr>))"

text \<open>
  \<open>_add_encrypted\<close>: the comprehension runs over \<open>range(len(a.ciphertext))\<close> and reads
  \<open>b.ciphertext[i]\<close>, which raises past the end of \<open>b\<close>.
\<close>

definition EncryptedVector_add_encrypted ::
  "int \<Rightarrow> EncryptedVector \<Rightarrow> EncryptedVector \<Rightarrow> py_error + EncryptedVector" where
  "EncryptedVector_add_encrypted B self other =
     (if vec_n self \<noteq> vec_n other then Inl ValueError
      else case (if vec_exponent self > vec_exponent other then
                   (case EncryptedVector_decrease_exponent_to B self (vec_exponent other) of
                      Inl e \<Rightarrow> Inl e
                    | Inr a \<Rightarrow> Inr (a, other))
                 else if vec_exponent self < vec_exponent other then
                   (case EncryptedVector_decrease_exponent_to B other (vec_exponent self) of
                      Inl e \<Rightarrow> Inl e
                    | Inr b \<Rightarrow> Inr (self, b))
                 else Inr (self, other)) of
             Inl e \<Rightarrow> Inl e
           | Inr (a, b) \<Rightarrow>
               (case map_result
                       (\<lambda>i. case getitem (vec_ciphertext b) (int i) of
                               Inl e \<Rightarrow> Inl e
                             | Inr e_b \<Rightarrow> Inr (EncryptedVector_raw_add a (vec_ciphertext a ! i) e_b))
                       [0..<length (vec_ciphertext a)] of
                  Inl e \<Rightarrow> Inl e
                | Inr sum_ciphertext \<Rightarrow>
                    Inr \<lparr>vec_n = vec_n a, vec_nsquare = vec_nsquare a, vec_max_int = vec_max_int a,
                         vec_ciphertext = sum_ciphertext, vec_exponent = vec_exponent a\<rparr>))"

text \<open>
  \<open>__add__\<close> with an \<open>EncryptedVector\<close> operand, which the dispatch sends to
  \<open>_add_encrypted\<close>; the other operand types are not modelled.
\<close>

definition EncryptedVector_add ::
  "int \<Rightarrow> EncryptedVector \<Rightarrow> EncryptedVector \<Rightarrow> py_error + EncryptedVector" where
  "EncryptedVector_add B self other = EncryptedVector_add_encrypted B self other"



text \<open>
  \<open>bind_to_vector(cipher_list)\<close>. The \<open>assert\<close> tests its message, a string, and a
  string is true when it is not empty; \<open>str_nat\<close> is \<open>str\<close> of a length.
\<close>

function str_nat :: "nat \<Rightarrow> string" where
  "str_nat k =
     (if k < 10 then [char_of (48 + k)]
      else str_nat (k div 10) @ [char_of (48 + k mod 10)])"
  by pat_completeness auto
termination
  by (relation "measure id") auto

declare str_nat.simps [simp del]

definition bind_to_vector :: "EncryptedVector list \<Rightarrow> py_error + EncryptedVector" where
  "bind_to_vector cipher_list =
     (case getitem cipher_list 0 of
        Inl e \<Rightarrow> Inl e
      | Inr tmp_cipher \<Rightarrow>
          (if length (vec_ciphertext tmp_cipher) \<noteq> 0 \<and>
              (''Only support to bind ONE cipher list in to EncryptedVector, but get ''
                 @ str_nat (length (vec_ciphertext tmp_cipher))) = []
           then Inl AssertionError
           else case map_result (\<lambda>c. getitem (vec_ciphertext c) 0) cipher_list of
                  Inl e \<Rightarrow> Inl e
                | Inr product \<Rightarrow>
                    Inr \<lparr>vec_n = vec_n tmp_cipher, vec_nsquare = vec_nsquare tmp_cipher,
                         vec_max_int = vec_max_int tmp_cipher, vec_ciphertext = product,
                         vec_exponent = vec_exponent tmp_cipher\<rparr>))"

section \<open>Key generation\<close>

text \<open>
  \<open>pow_mod_n2(base, exp, n_length, psquare, qsquare, qsquare_inv)\<close>, with \<open>e\<close> for the
  argument \<open>exp\<close>; \<open>drawn\<close> is the value \<open>rand_int_bits\<close> returns when \<open>base\<close> is
  \<open>None\<close>.
\<close>

definition pow_mod_n2 :: "int option \<Rightarrow> int \<Rightarrow> int \<Rightarrow> int \<Rightarrow> int \<Rightarrow> int \<Rightarrow> int \<Rightarrow> int" where
  "pow_mod_n2 base e n_length psquare qsquare qsquare_inv drawn =
     (let b = (case base of None \<Rightarrow> drawn | Some v \<Rightarrow> v);
          x_p = powmod b e psquare;
          x_q = powmod b e qsquare;
          x = (qsquare_inv * (x_p - x_q)) mod psquare
      in x * qsquare + x_q)"

text \<open>
  The two nested loops of \<open>generate_keys\<close>, over the primes that the successive calls
  of \<open>getprimeover(n_length // 2)\<close> return: with no \<open>p\<close> at hand the next prime is
  \<open>p\<close>; a prime equal to \<open>p\<close> is drawn again; another one is \<open>q\<close>, and the loops end
  when the product has \<open>n_length\<close> bits. The result is \<open>None\<close> when the primes given
  run out before that.
\<close>

fun draw_primes :: "int \<Rightarrow> int option \<Rightarrow> int list \<Rightarrow> (int \<times> int) option" where
  "draw_primes n_length st [] = None"
| "draw_primes n_length None (x # xs) = draw_primes n_length (Some x) xs"
| "draw_primes n_length (Some p) (x # xs) =
     (if x = p then draw_primes n_length (Some p) xs
      else if bit_length (p * x) = n_length then Some (p, x)
      else draw_primes n_length None xs)"

text \<open>
  \<open>generate_keys(n_length, precompute, table_path)\<close>. For \<open>n_length = 0\<close> the loop is
  not entered, \<open>p\<close>, \<open>q\<close> and \<open>n\<close> stay \<open>None\<close> and the arithmetic on them raises
  \<open>TypeError\<close>. The pool computes the table entries for the bases \<open>range(16384)\<close>, in
  order. Writing the table file is not modelled.
\<close>

definition generate_keys ::
  "int \<Rightarrow> bool \<Rightarrow> int list \<Rightarrow> (py_error + PaillierPublicKey \<times> PaillierPrivateKey) option" where
  "generate_keys n_length precompute primes =
     (if n_length = 0 then Some (Inl TypeError)
      else case draw_primes n_length None primes of
             None \<Rightarrow> None
           | Some (p, q) \<Rightarrow>
               Some
                 (let n = p * q; n_len = bit_length n
                  in case (if precompute then
                             (let psquare = p * p; qsquare = q * q
                              in case invmod qsquare psquare of
                                   Inl e \<Rightarrow> Inl e
                                 | Inr qsquare_inv \<Rightarrow>
                                     Inr (PaillierPublicKey_init n
                                            (Some (map (\<lambda>base. pow_mod_n2 (Some base) n n_len
                                                              psquare qsquare qsquare_inv 0)
                                                       [0..16383]))
                                            n_length 3))
                           else Inr (PaillierPublicKey_init n None 2048 3)) of
                       Inl e \<Rightarrow> Inl e
                     | Inr public_key \<Rightarrow>
                         (case PaillierPrivateKey_init public_key p q of
                            Inl e \<Rightarrow> Inl e
                          | Inr private_key \<Rightarrow> Inr (public_key, private_key))))"

section \<open>The vector demo (\<open>enc_vector.py\<close>)\<close>


section \<open>Notions used in the statements\<close>

text \<open>
  A prime, as \<open>getprimeover\<close> returns one (the spec, section 4.1), and the residue
  \<open>L(x mod p\<^sup>2, p)\<close> that decryption reads off a power of the ciphertext.
\<close>

definition is_prime :: "int \<Rightarrow> bool" where
  "is_prime p \<longleftrightarrow> 1 < p \<and> (\<forall>d\<in>{2..p - 1}. \<not> d dvd p)"

definition ell :: "int \<Rightarrow> int \<Rightarrow> int" where
  "ell p x = (x mod (p * p) - 1) div p"


text \<open>
  A private key as \<open>PaillierPrivateKey.__init__\<close> builds it from two primes, for a
  public key as \<open>PaillierPublicKey.__init__\<close> builds it from their product; and the
  value \<open>L(c\<^sup>p\<^sup>-\<^sup>1 mod p\<^sup>2, p) * h mod p\<close> of \<open>raw_decrypt\<close>.
\<close>

definition valid_key :: "PaillierPrivateKey \<Rightarrow> bool" where
  "valid_key priv \<longleftrightarrow>
     is_prime (sk_p priv) \<and> is_prime (sk_q priv) \<and>
     sk_public_key priv =
       PaillierPublicKey_init (sk_p priv * sk_q priv) (pk_r_pow_n_l (sk_public_key priv))
         (pk_n_length (sk_public_key priv)) (pk_noise (sk_public_key priv)) \<and>
     PaillierPrivateKey_init (sk_public_key priv) (sk_p priv) (sk_q priv) = Inr priv"

definition dec_residue :: "int \<Rightarrow> int \<Rightarrow> int \<Rightarrow> int" where
  "dec_residue p h c = (ell p (c ^ nat (p - 1)) * h) mod p"



text \<open>A small key pair, for the primes 5 and 7, on which the statements are run.\<close>

definition pub35 :: PaillierPublicKey where
  "pub35 = PaillierPublicKey_init 35 None 2048 3"

definition priv35 :: PaillierPrivateKey where
  "priv35 = \<lparr>sk_public_key = pub35, sk_p = 5, sk_q = 7, sk_psquare = 25, sk_qsquare = 49,
             sk_p_inverse = 3, sk_hp = 2, sk_hq = 4\<rparr>"







section \<open>Number theory\<close>

subsection \<open>Primes and Fermat's little theorem\<close>

lemma is_prime_gt1: "is_prime p \<Longrightarrow> 1 < p"
  by (simp add: is_prime_def)

lemma is_prime_coprime:
  assumes "is_prime p" and "\<not> p dvd a"
  shows "coprime a p"
proof -
  let ?d = "gcd a p"
  have p: "1 < p" using assms(1) by (simp add: is_prime_def)
  have d0: "0 \<le> ?d" by simp
  have dp: "?d dvd p" and da: "?d dvd a" by simp_all
  have "?d \<noteq> 0" using p by simp
  have dle: "?d \<le> p" using dp p by (simp add: zdvd_imp_le)
  have "?d \<noteq> p" using da assms(2) by metis
  moreover have "\<not> (2 \<le> ?d \<and> ?d \<le> p - 1)"
    using assms(1) dp by (auto simp: is_prime_def)
  ultimately have "?d = 1" using d0 dle \<open>?d \<noteq> 0\<close> by linarith
  then show ?thesis by (simp add: coprime_iff_gcd_eq_1)
qed








subsection \<open>Residues modulo the square of a prime\<close>

lemma one_plus_mod_sq:
  fixes p t :: int
  assumes "1 < p"
  shows "(1 + p * t) mod (p * p) = 1 + p * (t mod p)"
proof -
  have "p * t = p * (t div p * p + t mod p)" by (simp only: div_mult_mod_eq)
  also have "\<dots> = p * (t mod p) + (t div p) * (p * p)" by (simp only: algebra_simps)
  finally have "1 + p * t = (1 + p * (t mod p)) + (t div p) * (p * p)" by simp
  then have "(1 + p * t) mod (p * p) = (1 + p * (t mod p)) mod (p * p)"
    by (simp only: mod_mult_self1)
  moreover have "0 \<le> t mod p" "t mod p \<le> p - 1" using assms by simp_all
  then have "0 \<le> p * (t mod p)" "p * (t mod p) \<le> p * (p - 1)"
    using assms by (simp_all add: mult_left_mono)
  then have "0 \<le> 1 + p * (t mod p)" "1 + p * (t mod p) < p * p"
    using assms by (simp_all add: algebra_simps)
  ultimately show ?thesis by simp
qed

lemma ell_decomp:
  fixes p x :: int
  assumes "1 < p" and "x mod p = 1"
  shows "x mod (p * p) = 1 + p * ell p x" and "0 \<le> ell p x" and "ell p x < p"
proof -
  let ?y = "x mod (p * p)"
  have "?y mod p = x mod p" by (simp add: mod_mod_cancel)
  then have y1: "?y mod p = 1" using assms by simp
  have "?y = p * (?y div p) + ?y mod p" by simp
  then have y: "?y = p * (?y div p) + 1" using y1 by simp
  then have "?y - 1 = (?y div p) * p" by (simp add: algebra_simps)
  then have "(?y - 1) div p = ?y div p" using assms by (metis nonzero_mult_div_cancel_right not_one_less_zero)
  then have e: "ell p x = ?y div p" by (simp add: ell_def)
  show "x mod (p * p) = 1 + p * ell p x" using y e by simp
  have "0 \<le> ?y" "?y < p * p" using assms by simp_all
  then show "0 \<le> ell p x" unfolding e using assms
    by (simp add: pos_imp_zdiv_nonneg_iff)
  have "p * (?y div p) < p * p" using y \<open>?y < p * p\<close> by linarith
  then show "ell p x < p" unfolding e using assms
    by (simp add: mult_less_cancel_left_pos)
qed

lemma ell_one_plus:
  fixes p t :: int
  assumes "1 < p"
  shows "ell p (1 + p * t) = t mod p"
  using assms by (simp add: ell_def one_plus_mod_sq)

lemma ell_mult:
  fixes p x y :: int
  assumes "1 < p" and "x mod p = 1" and "y mod p = 1"
  shows "ell p (x * y) = (ell p x + ell p y) mod p"
proof -
  let ?a = "ell p x" and ?b = "ell p y"
  have "(x * y) mod (p * p) = ((x mod (p * p)) * (y mod (p * p))) mod (p * p)"
    by (simp add: mod_mult_eq)
  also have "\<dots> = ((1 + p * ?a) * (1 + p * ?b)) mod (p * p)"
    using ell_decomp(1)[OF assms(1,2)] ell_decomp(1)[OF assms(1,3)] by simp
  also have "(1 + p * ?a) * (1 + p * ?b) = (1 + p * (?a + ?b)) + (?a * ?b) * (p * p)"
    by (simp add: algebra_simps)
  also have "\<dots> mod (p * p) = (1 + p * (?a + ?b)) mod (p * p)"
    by (simp only: mod_mult_self1)
  also have "\<dots> = 1 + p * ((?a + ?b) mod p)" by (rule one_plus_mod_sq[OF assms(1)])
  finally have "(x * y) mod (p * p) = 1 + p * ((?a + ?b) mod p)" .
  then show ?thesis using assms(1) by (simp add: ell_def)
qed

lemma ell_one: "1 < p \<Longrightarrow> ell p 1 = 0"
  using ell_one_plus[of p 0] by simp

lemma ell_power:
  fixes p x :: int
  assumes "1 < p" and "x mod p = 1"
  shows "ell p (x ^ k) = (int k * ell p x) mod p"
proof (induction k)
  case 0
  then show ?case using assms(1) by (simp add: ell_one)
next
  case (Suc k)
  have xk: "x ^ k mod p = 1"
    using assms by (metis power_mod power_one mod_pos_pos_trivial zero_le_one)
  have "ell p (x ^ Suc k) = ell p (x * x ^ k)" by simp
  also have "\<dots> = (ell p x + ell p (x ^ k)) mod p" by (rule ell_mult[OF assms xk])
  also have "\<dots> = (ell p x + (int k * ell p x) mod p) mod p" by (simp add: Suc.IH)
  also have "\<dots> = (ell p x + int k * ell p x) mod p" by (simp add: mod_add_right_eq)
  also have "\<dots> = (int (Suc k) * ell p x) mod p" by (simp add: algebra_simps)
  finally show ?case .
qed


subsection \<open>The modular inverse\<close>

lemma find_SomeD: "List.find P xs = Some x \<Longrightarrow> P x \<and> x \<in> set xs"
  by (induction xs) (auto split: if_splits)

lemma invert_InrD:
  assumes "invert a m = Inr x"
  shows "0 \<le> x" and "x < m" and "(a * x) mod m = 1"
proof -
  from assms have "List.find (\<lambda>x. (a * x) mod m = 1) [0..m - 1] = Some x"
    by (auto simp: invert_def split: option.splits)
  from find_SomeD[OF this] show "0 \<le> x" and "x < m" and "(a * x) mod m = 1" by auto
qed

lemma invert_unique:
  assumes "0 \<le> y" and "y < m" and "(a * y) mod m = 1"
  shows "invert a m = Inr y"
proof -
  have "y \<in> set [0..m - 1]" using assms by simp
  then have "List.find (\<lambda>x. (a * x) mod m = 1) [0..m - 1] \<noteq> None"
    using assms(3) by (auto simp: find_None_iff)
  then obtain x where x: "invert a m = Inr x" by (auto simp: invert_def)
  note xs = invert_InrD[OF x]
  have m: "0 < m" using assms by simp
  have "x mod m = (x * ((a * y) mod m)) mod m" using assms(3) by simp
  also have "\<dots> = (y * ((a * x) mod m)) mod m" by (simp add: mod_simps algebra_simps)
  also have "\<dots> = y mod m" using xs(3) by simp
  finally have "x = y" using xs(1,2) assms(1,2) by simp
  then show ?thesis using x by simp
qed

lemma invert_coprime:
  assumes "1 < m" and "coprime a m"
  shows "\<exists>x. invert a m = Inr x"
proof -
  obtain u v where "u * a + v * m = gcd a m" using bezout_int by blast
  then have uv: "u * a + v * m = 1" using assms(2) by (simp add: coprime_iff_gcd_eq_1)
  have "a * u = 1 + (- v) * m" using uv by (simp add: algebra_simps)
  then have "(a * u) mod m = 1 mod m" by (metis mod_mult_self1)
  then have "(a * (u mod m)) mod m = 1" using assms(1) by (simp add: mod_simps)
  moreover have "0 \<le> u mod m" "u mod m < m" using assms(1) by simp_all
  ultimately show ?thesis using invert_unique by blast
qed


subsection \<open>Chinese remaindering\<close>



subsection \<open>The residue that decryption computes modulo one prime\<close>

lemma l_function_powmod:
  "p \<noteq> 0 \<Longrightarrow> l_function (powmod c (p - 1) (p * p)) p = Inr (ell p (c ^ nat (p - 1)))"
  by (simp add: l_function_def powmod_def ell_def)

lemma one_plus_mod: "1 < p \<Longrightarrow> (1 + p * t) mod p = (1::int)"
  by simp

lemma ell_one_plus_power:
  fixes p t :: int
  assumes "1 < p"
  shows "ell p ((1 + p * t) ^ k) = (int k * t) mod p"
proof -
  have "ell p ((1 + p * t) ^ k) = (int k * ell p (1 + p * t)) mod p"
    by (rule ell_power[OF assms one_plus_mod[OF assms]])
  also have "\<dots> = (int k * (t mod p)) mod p" by (simp add: ell_one_plus[OF assms])
  also have "\<dots> = (int k * t) mod p" by (simp add: mod_mult_right_eq)
  finally show ?thesis .
qed






lemma dec_residue_one: "1 < p \<Longrightarrow> dec_residue p h 1 = 0"
  by (simp add: dec_residue_def ell_one)


subsection \<open>Keys\<close>

lemma primes_coprime:
  assumes "is_prime p" and "is_prime q" and "p \<noteq> q"
  shows "coprime p q"
proof -
  have p: "1 < p" and q: "1 < q" using assms by (simp_all add: is_prime_gt1)
  have "\<not> q dvd p"
  proof
    assume d: "q dvd p"
    then have "q \<le> p" using p by (simp add: zdvd_imp_le)
    then have "q \<in> {2..p - 1}" using q assms(3) by simp
    then show False using assms(1) d by (auto simp: is_prime_def)
  qed
  then show ?thesis using assms(2) by (rule is_prime_coprime[rotated])
qed

lemma h_function_eq:
  assumes "p \<noteq> 0" and "pk_g pub = g"
  shows "h_function pub p (p * p) = invert (ell p (g ^ nat (p - 1))) p"
  using assms by (simp add: h_function_def l_function_powmod)

lemma invert_dec_residue:
  assumes "invert (ell p (g ^ nat (p - 1))) p = Inr h"
  shows "dec_residue p h g = 1"
  using invert_InrD(3)[OF assms] by (simp add: dec_residue_def)

lemma valid_key_facts:
  assumes v: "valid_key priv"
  shows "is_prime (sk_p priv)" and "is_prime (sk_q priv)"
    and "sk_p priv < sk_q priv"
    and "pk_n (sk_public_key priv) = sk_p priv * sk_q priv"
    and "pk_g (sk_public_key priv) = sk_p priv * sk_q priv + 1"
    and "pk_nsquare (sk_public_key priv) = (sk_p priv * sk_q priv) * (sk_p priv * sk_q priv)"
    and "pk_max_int (sk_public_key priv) = (sk_p priv * sk_q priv) div 3 - 1"
    and "sk_psquare priv = sk_p priv * sk_p priv"
    and "sk_qsquare priv = sk_q priv * sk_q priv"
    and "(sk_p priv * sk_p_inverse priv) mod sk_q priv = 1"
    and "dec_residue (sk_p priv) (sk_hp priv) (sk_p priv * sk_q priv + 1) = 1"
    and "dec_residue (sk_q priv) (sk_hq priv) (sk_q priv * sk_p priv + 1) = 1"
proof -
  define p q pub where "p = sk_p priv" and "q = sk_q priv" and "pub = sk_public_key priv"
  have pr: "is_prime p" "is_prime q"
    and pubeq: "pub = PaillierPublicKey_init (p * q) (pk_r_pow_n_l pub) (pk_n_length pub) (pk_noise pub)"
    and init: "PaillierPrivateKey_init pub p q = Inr priv"
    using v unfolding valid_key_def p_def q_def pub_def by simp_all
  have p0: "p \<noteq> 0" "q \<noteq> 0" using pr by (auto dest: is_prime_gt1)
  have n: "pk_n pub = p * q" and g: "pk_g pub = p * q + 1"
    and nsq: "pk_nsquare pub = (p * q) * (p * q)" and mi: "pk_max_int pub = (p * q) div 3 - 1"
    using arg_cong[OF pubeq, of pk_n] arg_cong[OF pubeq, of pk_g]
      arg_cong[OF pubeq, of pk_nsquare] arg_cong[OF pubeq, of pk_max_int]
    by (simp_all add: PaillierPublicKey_init_def)
  have neq: "p \<noteq> q" using init n by (auto simp: PaillierPrivateKey_init_def split: if_splits)
  have lt: "p < q"
  proof (rule ccontr)
    assume "\<not> p < q"
    then have "q < p" using neq by simp
    then have "sk_p priv = q" using init n neq
      by (auto simp: PaillierPrivateKey_init_def Let_def split: sum.splits)
    then show False using neq by (simp add: p_def)
  qed
  have nlt: "\<not> q < p" using lt by simp
  obtain pinv hp hq where i1: "invert p q = Inr pinv"
    and i2: "h_function pub p (p * p) = Inr hp"
    and i3: "h_function pub q (q * q) = Inr hq"
    and priv: "priv = \<lparr>sk_public_key = pub, sk_p = p, sk_q = q, sk_psquare = p * p,
        sk_qsquare = q * q, sk_p_inverse = pinv, sk_hp = hp, sk_hq = hq\<rparr>"
    using init n neq nlt
    by (auto simp: PaillierPrivateKey_init_def Let_def split: sum.splits)
  have gq: "pk_g pub = q * p + 1" using g by (simp add: mult.commute)
  show "is_prime (sk_p priv)" "is_prime (sk_q priv)" using pr by (simp_all add: p_def q_def)
  show "sk_p priv < sk_q priv" using lt by (simp add: p_def q_def)
  show "pk_n (sk_public_key priv) = sk_p priv * sk_q priv"
    "pk_g (sk_public_key priv) = sk_p priv * sk_q priv + 1"
    "pk_nsquare (sk_public_key priv) = (sk_p priv * sk_q priv) * (sk_p priv * sk_q priv)"
    "pk_max_int (sk_public_key priv) = (sk_p priv * sk_q priv) div 3 - 1"
    using n g nsq mi by (simp_all add: p_def q_def pub_def)
  show "sk_psquare priv = sk_p priv * sk_p priv" "sk_qsquare priv = sk_q priv * sk_q priv"
    by (subst priv, simp add: p_def q_def)+
  have "sk_p_inverse priv = pinv" "sk_hp priv = hp" "sk_hq priv = hq"
    by (subst priv, simp)+
  moreover have "(p * pinv) mod q = 1" using invert_InrD(3)[OF i1] .
  moreover have "dec_residue p hp (p * q + 1) = 1"
    using i2 unfolding h_function_eq[OF p0(1) g] by (rule invert_dec_residue)
  moreover have "dec_residue q hq (q * p + 1) = 1"
    using i3 unfolding h_function_eq[OF p0(2) gq] by (rule invert_dec_residue)
  ultimately show "(sk_p priv * sk_p_inverse priv) mod sk_q priv = 1"
    "dec_residue (sk_p priv) (sk_hp priv) (sk_p priv * sk_q priv + 1) = 1"
    "dec_residue (sk_q priv) (sk_hq priv) (sk_q priv * sk_p priv + 1) = 1"
    by (simp_all add: p_def q_def)
qed












section \<open>Sequence access\<close>


subsection \<open>Ciphertexts\<close>












subsection \<open>Encryption\<close>






subsection \<open>Encoding and decoding of integers\<close>










lemmas key35_simps = priv35_def pub35_def PaillierPublicKey_init_def



lemma priv35_fields:
  "sk_public_key priv35 = pub35" "pk_n pub35 = 35" "pk_max_int pub35 = 10"
  "pk_nsquare pub35 = 1225"
  by (simp_all add: priv35_def pub35_def PaillierPublicKey_init_def)

subsection \<open>Arithmetic on scalar ciphertexts\<close>









subsection \<open>Vectors\<close>

lemma map_result_Inr:
  "(\<And>x. x \<in> set xs \<Longrightarrow> f x = Inr (g x)) \<Longrightarrow> map_result f xs = Inr (map g xs)"
  by (induction xs) simp_all

lemma getitem_0: "xs \<noteq> [] \<Longrightarrow> getitem xs 0 = Inr (hd xs)"
  by (cases xs) (simp_all add: getitem_def)

lemma getitem_0_Nil: "getitem [] 0 = Inl IndexError"
  by (simp add: getitem_def)

lemmas vector_simps = EncryptedVector_add_def EncryptedVector_add_encrypted_def
  EncryptedVector_raw_add_def EncryptedVector_mul_def EncryptedVector_raw_mul_2_def
  EncryptedVector_decrease_exponent_to_def EncodedVector_encode_def raw_mul_residue_def
  getitem_def mul_mod_def powmod_def




subsection \<open>Lowering the exponent\<close>











subsection \<open>Sums over a grid\<close>









subsection \<open>Key generation\<close>

lemma isqrt_nat_bounds:
  "isqrt_nat k * isqrt_nat k \<le> k \<and> k < Suc (isqrt_nat k) * Suc (isqrt_nat k)"
proof (induction k)
  case 0
  then show ?case by simp
next
  case (Suc k)
  then show ?case by (auto simp: Let_def)
qed

lemma isqrt_nat_square: "isqrt_nat (k * k) = k"
proof -
  let ?r = "isqrt_nat (k * k)"
  have b: "?r * ?r \<le> k * k" "k * k < Suc ?r * Suc ?r"
    using isqrt_nat_bounds[of "k * k"] by simp_all
  have "\<not> ?r < k"
  proof
    assume "?r < k"
    then have "Suc ?r \<le> k" by (rule Suc_leI)
    then have "Suc ?r * Suc ?r \<le> k * k" by (intro mult_le_mono)
    then show False using b(2) by simp
  qed
  moreover have "\<not> k < ?r"
  proof
    assume "k < ?r"
    then have "Suc k \<le> ?r" by (rule Suc_leI)
    then have "Suc k * Suc k \<le> ?r * ?r" by (intro mult_le_mono)
    then show False using b(1) by simp
  qed
  ultimately show ?thesis by simp
qed

lemma isqrt_square: "0 \<le> d \<Longrightarrow> isqrt (d * d) = Inr d"
  by (simp add: isqrt_def nat_mult_distrib isqrt_nat_square)

lemma draw_primes_SomeD:
  "draw_primes n_length st xs = Some (p, q) \<Longrightarrow> \<forall>x\<in>set xs. P x \<Longrightarrow>
   (case st of None \<Rightarrow> True | Some s \<Rightarrow> P s) \<Longrightarrow>
   P p \<and> P q \<and> p \<noteq> q \<and> bit_length (p * q) = n_length"
  by (induction n_length st xs rule: draw_primes.induct) (auto split: if_splits)

lemma draw_primes_append:
  "draw_primes n_length st xs = Some r \<Longrightarrow> draw_primes n_length st (xs @ ys) = Some r"
  by (induction n_length st xs rule: draw_primes.induct) (auto split: if_splits)

lemma draw_primes_live:
  "p \<noteq> q \<Longrightarrow> bit_length (p * q) = n_length \<Longrightarrow>
   draw_primes n_length st (xs @ [p, q, p]) \<noteq> None"
proof (induction n_length st xs rule: draw_primes.induct)
  case (1 n_length st)
  then show ?case by (cases st) (auto simp: mult.commute)
next
  case (2 n_length x xs)
  then show ?case by simp
next
  case (3 n_length p x xs)
  then show ?case by simp
qed

lemma pred_coprime: "coprime (p - 1) (p::int)"
proof (rule coprimeI)
  fix c assume "c dvd p - 1" and "c dvd p"
  then have "c dvd p - (p - 1)" by (rule dvd_diff[rotated])
  then show "is_unit c" by simp
qed

lemma h_function_ok:
  assumes p: "is_prime p" and c: "coprime q p" 
  shows "\<exists>h. h_function (PaillierPublicKey_init (p * q) t nl noise) p (p * p) = Inr h"
proof -
  have p1: "1 < p" using p by (rule is_prime_gt1)
  then have p0: "p \<noteq> 0" by simp
  let ?k = "nat (p - 1)"
  have g: "pk_g (PaillierPublicKey_init (p * q) t nl noise) = p * q + 1"
    by (simp add: PaillierPublicKey_init_def)
  have e: "ell p ((p * q + 1) ^ ?k) = ((p - 1) * q) mod p"
    using ell_one_plus_power[OF p1, of q ?k] p1 by (simp add: add.commute)
  have "coprime ((p - 1) * q) p" using pred_coprime c by simp
  then have "coprime (((p - 1) * q) mod p) p" using p0 by (simp add: coprime_mod_left_iff)
  from invert_coprime[OF p1 this] show ?thesis
    unfolding h_function_eq[OF p0 g] e .
qed

lemma PaillierPrivateKey_init_ordered:
  assumes p: "is_prime p" and q: "is_prime q" and lt: "p < q"
  shows "\<exists>priv. PaillierPrivateKey_init (PaillierPublicKey_init (p * q) t nl noise) p q = Inr priv
           \<and> PaillierPrivateKey_init (PaillierPublicKey_init (p * q) t nl noise) q p = Inr priv
           \<and> valid_key priv
           \<and> sk_public_key priv = PaillierPublicKey_init (p * q) t nl noise
           \<and> sk_p priv = p \<and> sk_q priv = q"
proof -
  let ?pub = "PaillierPublicKey_init (p * q) t nl noise"
  have neq: "p \<noteq> q" using lt by simp
  have cp: "coprime p q" using p q neq by (rule primes_coprime)
  have q1: "1 < q" using q by (rule is_prime_gt1)
  obtain pinv where i1: "invert p q = Inr pinv" using invert_coprime[OF q1 cp] by blast
  obtain hp where i2: "h_function ?pub p (p * p) = Inr hp"
    using h_function_ok[OF p, of q t nl noise] cp by (auto simp: coprime_commute)
  have "\<exists>h. h_function (PaillierPublicKey_init (q * p) t nl noise) q (q * q) = Inr h"
    by (rule h_function_ok[OF q cp])
  then obtain hq where i3: "h_function ?pub q (q * q) = Inr hq"
    by (auto simp: mult.commute)
  let ?priv = "\<lparr>sk_public_key = ?pub, sk_p = p, sk_q = q, sk_psquare = p * p,
        sk_qsquare = q * q, sk_p_inverse = pinv, sk_hp = hp, sk_hq = hq\<rparr>"
  have n: "pk_n ?pub = p * q" by (simp add: PaillierPublicKey_init_def)
  have a: "PaillierPrivateKey_init ?pub p q = Inr ?priv"
    using lt neq by (simp add: PaillierPrivateKey_init_def n Let_def i1 i2 i3)
  have b: "PaillierPrivateKey_init ?pub q p = Inr ?priv"
    using lt neq by (simp add: PaillierPrivateKey_init_def n Let_def i1 i2 i3 mult.commute)
  have "valid_key ?priv"
    unfolding valid_key_def using p q a by (simp add: PaillierPublicKey_init_def)
  then show ?thesis using a b by auto
qed

lemma PaillierPrivateKey_init_ok:
  assumes p: "is_prime p" and q: "is_prime q" and neq: "p \<noteq> q"
  shows "\<exists>priv. PaillierPrivateKey_init (PaillierPublicKey_init (p * q) t nl noise) p q = Inr priv
           \<and> valid_key priv
           \<and> sk_public_key priv = PaillierPublicKey_init (p * q) t nl noise
           \<and> sk_p priv = min p q \<and> sk_q priv = max p q"
proof (cases "p < q")
  case True
  from PaillierPrivateKey_init_ordered[OF p q True, of t nl noise] True
  show ?thesis by auto
next
  case False
  then have lt: "q < p" using neq by simp
  from PaillierPrivateKey_init_ordered[OF q p lt, of t nl noise] lt
  show ?thesis by (auto simp: mult.commute)
qed

lemma from_totient_ok:
  assumes v: "valid_key priv"
  shows "from_totient (sk_public_key priv) ((sk_p priv - 1) * (sk_q priv - 1)) = Inr priv"
proof -
  note f = valid_key_facts[OF v]
  define p q where "p = sk_p priv" and "q = sk_q priv"
  have lt: "p < q" using f(3) by (simp add: p_def q_def)
  have n: "pk_n (sk_public_key priv) = p * q" using f(4) by (simp add: p_def q_def)
  have init: "PaillierPrivateKey_init (sk_public_key priv) p q = Inr priv"
    using v by (simp add: valid_key_def p_def q_def)
  have swap: "PaillierPrivateKey_init (sk_public_key priv) q p = PaillierPrivateKey_init (sk_public_key priv) p q"
    using lt by (simp add: PaillierPrivateKey_init_def Let_def mult.commute)
  have s: "p * q - (p - 1) * (q - 1) + 1 = p + q" by (simp add: algebra_simps)
  have d: "(p + q) * (p + q) - p * q * 4 = (q - p) * (q - p)" by (simp add: algebra_simps)
  have r: "isqrt ((q - p) * (q - p)) = Inr (q - p)" using lt by (intro isqrt_square) simp
  have h: "(p + q - (q - p)) div 2 = p" by simp
  have "from_totient (sk_public_key priv) ((p - 1) * (q - 1)) = Inr priv"
    unfolding from_totient_def n s Let_def d r h
    by (simp add: mult.commute swap init n)
  then show ?thesis by (simp add: p_def q_def)
qed

lemma invmod_squares:
  assumes p: "is_prime p" and q: "is_prime q" and neq: "p \<noteq> q"
  shows "\<exists>x. invmod (q * q) (p * p) = Inr x"
proof -
  have "coprime q p" using q p neq[symmetric] by (rule primes_coprime)
  then have c: "coprime (q * q) (p * p)" by simp
  have "1 < p" using p by (rule is_prime_gt1)
  then have "1 * 1 < p * p" by (intro mult_strict_mono) simp_all
  then have "1 < p * p" by simp
  from invert_coprime[OF this c] show ?thesis by (simp add: invmod_def)
qed

lemma generate_keys_of_draw:
  assumes d: "draw_primes n_length None primes = Some (p, q)"
    and L: "n_length \<noteq> 0" and pr: "\<forall>x\<in>set primes. is_prime x"
  shows "\<exists>pub priv. generate_keys n_length precompute primes = Some (Inr (pub, priv))
           \<and> sk_public_key priv = pub \<and> valid_key priv \<and> pk_n pub = p * q
           \<and> bit_length (pk_n pub) = n_length"
proof -
  from draw_primes_SomeD[OF d, of is_prime] pr
  have p: "is_prime p" and q: "is_prime q" and neq: "p \<noteq> q" and b: "bit_length (p * q) = n_length"
    by simp_all
  obtain x where x: "invmod (q * q) (p * p) = Inr x" using invmod_squares[OF p q neq] by blast
  show ?thesis
  proof (cases precompute)
    case True
    let ?t = "Some (map (\<lambda>base. pow_mod_n2 (Some base) (p * q) (bit_length (p * q))
                                 (p * p) (q * q) x 0) [0..16383])"
    obtain priv where "PaillierPrivateKey_init (PaillierPublicKey_init (p * q) ?t n_length 3) p q = Inr priv"
      "valid_key priv" "sk_public_key priv = PaillierPublicKey_init (p * q) ?t n_length 3"
      using PaillierPrivateKey_init_ok[OF p q neq, of ?t n_length 3] by blast
    then show ?thesis using True L d x b
      by (simp add: generate_keys_def Let_def PaillierPublicKey_init_def)
  next
    case False
    obtain priv where "PaillierPrivateKey_init (PaillierPublicKey_init (p * q) None 2048 3) p q = Inr priv"
      "valid_key priv" "sk_public_key priv = PaillierPublicKey_init (p * q) None 2048 3"
      using PaillierPrivateKey_init_ok[OF p q neq, of None 2048 3] by blast
    then show ?thesis using False L d b
      by (simp add: generate_keys_def Let_def PaillierPublicKey_init_def)
  qed
qed

text \<open>
  A product of two numbers of \<open>b\<close> bits has at most \<open>2 * b\<close> bits: for an odd
  \<open>n_length\<close>, draws of exactly \<open>n_length // 2\<close> bits never end the loop.
\<close>

lemma bit_length_nat_le: "bit_length_nat k \<le> b \<longleftrightarrow> k < 2 ^ b"
proof (induction b arbitrary: k)
  case 0
  show ?case by (subst bit_length_nat.simps) simp
next
  case (Suc b)
  have "bit_length_nat k \<le> Suc b \<longleftrightarrow> k = 0 \<or> bit_length_nat (k div 2) \<le> b"
    by (subst bit_length_nat.simps) simp
  also have "\<dots> \<longleftrightarrow> k = 0 \<or> k div 2 < 2 ^ b" by (simp only: Suc.IH)
  also have "\<dots> \<longleftrightarrow> k < 2 ^ Suc b" by auto
  finally show ?case .
qed

lemma bit_length_mult_le:
  assumes "bit_length x = b" and "bit_length y = b"
  shows "bit_length (x * y) \<le> 2 * b"
proof -
  define k where "k = bit_length_nat (nat \<bar>x\<bar>)"
  have kx: "bit_length_nat (nat \<bar>x\<bar>) \<le> k" by (simp add: k_def)
  have "int (bit_length_nat (nat \<bar>y\<bar>)) = int k" using assms by (simp add: bit_length_def k_def)
  then have ky: "bit_length_nat (nat \<bar>y\<bar>) \<le> k" by simp
  have x: "nat \<bar>x\<bar> < 2 ^ k" and y: "nat \<bar>y\<bar> < 2 ^ k"
    using kx ky by (simp_all only: bit_length_nat_le)
  have "nat \<bar>x\<bar> * nat \<bar>y\<bar> < 2 ^ k * 2 ^ k"
    using x y by (intro mult_strict_mono) simp_all
  then have "nat \<bar>x * y\<bar> < 2 ^ (2 * k)"
    by (simp add: abs_mult nat_mult_distrib power_add mult_2)
  then have "bit_length_nat (nat \<bar>x * y\<bar>) \<le> 2 * k" by (simp only: bit_length_nat_le)
  then have "bit_length (x * y) \<le> 2 * int k" by (simp add: bit_length_def)
  moreover have "b = int k" using assms(1) by (simp add: bit_length_def k_def)
  ultimately show ?thesis by simp
qed

lemma draw_primes_None:
  "\<forall>x y. P x \<and> P y \<longrightarrow> bit_length (x * y) \<noteq> n_length \<Longrightarrow> \<forall>x\<in>set xs. P x \<Longrightarrow>
   (case st of None \<Rightarrow> True | Some s \<Rightarrow> P s) \<Longrightarrow> draw_primes n_length st xs = None"
  by (induction n_length st xs rule: draw_primes.induct) auto

lemma generate_keys_odd_length:
  assumes "odd n_length" and "\<forall>x\<in>set primes. bit_length x = n_length div 2"
  shows "generate_keys n_length precompute primes = None"
proof -
  have "\<forall>x y. bit_length x = n_length div 2 \<and> bit_length y = n_length div 2
          \<longrightarrow> bit_length (x * y) \<noteq> n_length"
  proof (intro allI impI)
    fix x y
    assume "bit_length x = n_length div 2 \<and> bit_length y = n_length div 2"
    then have "bit_length (x * y) \<le> 2 * (n_length div 2)" by (intro bit_length_mult_le) simp_all
    moreover have "2 * (n_length div 2) < n_length" using assms(1) by presburger
    ultimately show "bit_length (x * y) \<noteq> n_length" by simp
  qed
  from draw_primes_None[of "\<lambda>x. bit_length x = n_length div 2", OF this assms(2), of None]
  have "draw_primes n_length None primes = None" by simp
  moreover have "n_length \<noteq> 0" using assms(1) by auto
  ultimately show ?thesis by (simp add: generate_keys_def)
qed

lemma is_prime_5_7: "is_prime 5" "is_prime 7"
  by code_simp+

lemma generate_keys_35: "generate_keys 6 False [5, 7, 5] = Some (Inr (pub35, priv35))"
  by code_simp

subsection \<open>The vector demo\<close>











section \<open>Claims\<close>

text \<open>
  C10: \<open>raw_encrypt\<close> never reads \<open>r_value\<close>: for the same draws of the random source
  it returns the same result whatever \<open>r_value\<close> is, and so does \<open>encrypt_encoded\<close>,
  which forwards one; with \<open>r_value\<close> fixed, two runs that draw differently give
  different ciphertexts of the same plaintext.
\<close>

theorem raw_encrypt_ignores_r_value:
  "raw_encrypt pub plaintext r1 rs = raw_encrypt pub plaintext r2 rs
   \<and> encrypt_encoded pub encoding r1 rs = encrypt_encoded pub encoding r2 rs
   \<and> fst (projr (raw_encrypt (PaillierPublicKey_init 35 None 2048 3) 1 (Some 7) (\<lambda>_. 2)))
       \<noteq> fst (projr (raw_encrypt (PaillierPublicKey_init 35 None 2048 3) 1 (Some 7) (\<lambda>_. 3)))"
proof (intro conjI)
  show "raw_encrypt pub plaintext r1 rs = raw_encrypt pub plaintext r2 rs"
    by (simp add: raw_encrypt_def)
  show "encrypt_encoded pub encoding r1 rs = encrypt_encoded pub encoding r2 rs"
    by (simp add: encrypt_encoded_def raw_encrypt_def)
  show "fst (projr (raw_encrypt (PaillierPublicKey_init 35 None 2048 3) 1 (Some 7) (\<lambda>_. 2)))
       \<noteq> fst (projr (raw_encrypt (PaillierPublicKey_init 35 None 2048 3) 1 (Some 7) (\<lambda>_. 3)))"
    by (simp add: raw_encrypt_def PaillierPublicKey_init_def nude_ciphertext_def
        get_random_lt_n_def powmod_def mul_mod_def mod_py_def mul_def rng_next_def)
qed










text \<open>
  C5: the code does not do what the claim says for addition. \<open>__mul__\<close> by a sequence
  of another length raises (\<open>TypeError\<close>), but \<open>_add_encrypted\<close> has no length check:
  adding a longer vector returns a vector of the length of \<open>self\<close>, the extra
  residues of the operand being dropped; only a shorter operand fails, with the
  \<open>IndexError\<close> of the read past its end.
\<close>

theorem vector_add_unequal_lengths:
  "EncryptedVector_add 16
     \<lparr>vec_n = 35, vec_nsquare = 1225, vec_max_int = 10, vec_ciphertext = [36], vec_exponent = 0\<rparr>
     \<lparr>vec_n = 35, vec_nsquare = 1225, vec_max_int = 10, vec_ciphertext = [36, 71], vec_exponent = 0\<rparr>
   = Inr \<lparr>vec_n = 35, vec_nsquare = 1225, vec_max_int = 10, vec_ciphertext = [71], vec_exponent = 0\<rparr>
   \<and> EncryptedVector_add 16
     \<lparr>vec_n = 35, vec_nsquare = 1225, vec_max_int = 10, vec_ciphertext = [36, 71], vec_exponent = 0\<rparr>
     \<lparr>vec_n = 35, vec_nsquare = 1225, vec_max_int = 10, vec_ciphertext = [36], vec_exponent = 0\<rparr>
   = Inl IndexError
   \<and> EncryptedVector_mul 16
     \<lparr>vec_n = 35, vec_nsquare = 1225, vec_max_int = 10, vec_ciphertext = [36], vec_exponent = 0\<rparr>
     (VecArray [2, 3])
   = Inl TypeError"
  by (simp add: vector_simps upt_rec)

text \<open>
  C9, as amended: for a non-empty list of vectors, each of them non-empty,
  \<open>bind_to_vector\<close> returns the vector of the first residues, with the parameters
  and the exponent of the first vector; the assertion never fails, whatever the
  lengths are.
\<close>

theorem bind_to_vector_first_residues:
  assumes "cipher_list \<noteq> []" and "\<forall>c\<in>set cipher_list. vec_ciphertext c \<noteq> []"
  shows "bind_to_vector cipher_list =
    Inr \<lparr>vec_n = vec_n (hd cipher_list), vec_nsquare = vec_nsquare (hd cipher_list),
         vec_max_int = vec_max_int (hd cipher_list),
         vec_ciphertext = map (\<lambda>c. hd (vec_ciphertext c)) cipher_list,
         vec_exponent = vec_exponent (hd cipher_list)\<rparr>"
proof -
  have "map_result (\<lambda>c. getitem (vec_ciphertext c) 0) cipher_list
      = Inr (map (\<lambda>c. hd (vec_ciphertext c)) cipher_list)"
    using assms(2) by (intro map_result_Inr) (simp add: getitem_0)
  then show ?thesis using assms(1) by (simp add: bind_to_vector_def getitem_0)
qed

theorem bind_to_vector_first_residues_witness:
  "bind_to_vector
     [\<lparr>vec_n = 35, vec_nsquare = 1225, vec_max_int = 10, vec_ciphertext = [36, 71], vec_exponent = 0\<rparr>,
      \<lparr>vec_n = 35, vec_nsquare = 1225, vec_max_int = 10, vec_ciphertext = [106], vec_exponent = - 1\<rparr>]
   = Inr \<lparr>vec_n = 35, vec_nsquare = 1225, vec_max_int = 10, vec_ciphertext = [36, 106],
          vec_exponent = 0\<rparr>"
  using bind_to_vector_first_residues
    [of "[\<lparr>vec_n = 35, vec_nsquare = 1225, vec_max_int = 10, vec_ciphertext = [36, 71], vec_exponent = 0\<rparr>,
      \<lparr>vec_n = 35, vec_nsquare = 1225, vec_max_int = 10, vec_ciphertext = [106], vec_exponent = - 1\<rparr>]"]
  by simp

text \<open>
  C9 as stated fails: the first vector alone being non-empty is not enough, an empty
  vector later in the list raises \<open>IndexError\<close>.
\<close>

theorem bind_to_vector_counterexample:
  "bind_to_vector
     [\<lparr>vec_n = 35, vec_nsquare = 1225, vec_max_int = 10, vec_ciphertext = [36], vec_exponent = 0\<rparr>,
      \<lparr>vec_n = 35, vec_nsquare = 1225, vec_max_int = 10, vec_ciphertext = [], vec_exponent = 0\<rparr>]
   = Inl IndexError"
  by (simp add: bind_to_vector_def getitem_def)







text \<open>
  C8, as amended: for a requested bit length \<open>n_length \<noteq> 0\<close> and a run in which
  \<open>getprimeover\<close> returns primes, a call of \<open>generate_keys\<close> that returns gives a key
  pair built from two distinct primes \<open>p \<noteq> q\<close> with \<open>p * q = n\<close> and \<open>n\<close> of exactly
  \<open>n_length\<close> bits; \<open>from_totient\<close> of its public key and \<open>(p - 1) * (q - 1)\<close> returns the
  same private key, and \<open>from_totient\<close> raises \<open>ValueError\<close> for every totient whose
  reconstructed product is not \<open>n\<close>. The call returns once the draws go on with two
  distinct primes \<open>p\<close>, \<open>q\<close>, \<open>p\<close> whose product has \<open>n_length\<close> bits.
\<close>

theorem generate_keys_from_totient:
  assumes L: "n_length \<noteq> 0" and pr: "\<forall>x\<in>set primes. is_prime x"
  shows "(\<forall>res. generate_keys n_length precompute primes = Some res \<longrightarrow>
            (\<exists>pub priv. res = Inr (pub, priv)
               \<and> sk_public_key priv = pub \<and> valid_key priv
               \<and> bit_length (pk_n pub) = n_length
               \<and> sk_p priv \<noteq> sk_q priv
               \<and> sk_p priv * sk_q priv = pk_n pub
               \<and> from_totient pub ((sk_p priv - 1) * (sk_q priv - 1)) = Inr priv
               \<and> (\<forall>totient r.
                    isqrt ((pk_n pub - totient + 1) * (pk_n pub - totient + 1) - pk_n pub * 4) = Inr r
                    \<and> (pk_n pub - totient + 1 - (pk_n pub - totient + 1 - r) div 2)
                        * ((pk_n pub - totient + 1 - r) div 2) \<noteq> pk_n pub
                    \<longrightarrow> from_totient pub totient = Inl ValueError)))
       \<and> (\<forall>p q. is_prime p \<and> is_prime q \<and> p \<noteq> q \<and> bit_length (p * q) = n_length \<longrightarrow>
            (\<exists>res. generate_keys n_length precompute (primes @ [p, q, p]) = Some res))"
proof (intro conjI allI impI)
  fix res
  assume g: "generate_keys n_length precompute primes = Some res"
  then obtain p q where d: "draw_primes n_length None primes = Some (p, q)"
    using L by (auto simp: generate_keys_def split: option.splits)
  from generate_keys_of_draw[OF d L pr, of precompute] g
  obtain pub priv where res: "res = Inr (pub, priv)" and k: "sk_public_key priv = pub"
    and v: "valid_key priv" and b: "bit_length (pk_n pub) = n_length"
    by auto
  note f = valid_key_facts[OF v]
  have "sk_p priv \<noteq> sk_q priv" using f(3) by simp
  moreover have "sk_p priv * sk_q priv = pk_n pub" using f(4) k by simp
  moreover have "from_totient pub ((sk_p priv - 1) * (sk_q priv - 1)) = Inr priv"
    using from_totient_ok[OF v] k by simp
  moreover have "\<forall>totient r.
      isqrt ((pk_n pub - totient + 1) * (pk_n pub - totient + 1) - pk_n pub * 4) = Inr r
      \<and> (pk_n pub - totient + 1 - (pk_n pub - totient + 1 - r) div 2)
          * ((pk_n pub - totient + 1 - r) div 2) \<noteq> pk_n pub
      \<longrightarrow> from_totient pub totient = Inl ValueError"
    by (simp add: from_totient_def Let_def)
  ultimately show "\<exists>pub priv. res = Inr (pub, priv)
               \<and> sk_public_key priv = pub \<and> valid_key priv
               \<and> bit_length (pk_n pub) = n_length
               \<and> sk_p priv \<noteq> sk_q priv
               \<and> sk_p priv * sk_q priv = pk_n pub
               \<and> from_totient pub ((sk_p priv - 1) * (sk_q priv - 1)) = Inr priv
               \<and> (\<forall>totient r.
                    isqrt ((pk_n pub - totient + 1) * (pk_n pub - totient + 1) - pk_n pub * 4) = Inr r
                    \<and> (pk_n pub - totient + 1 - (pk_n pub - totient + 1 - r) div 2)
                        * ((pk_n pub - totient + 1 - r) div 2) \<noteq> pk_n pub
                    \<longrightarrow> from_totient pub totient = Inl ValueError)"
    using res k v b by blast
next
  fix p q
  assume a: "is_prime p \<and> is_prime q \<and> p \<noteq> q \<and> bit_length (p * q) = n_length"
  then have "draw_primes n_length None (primes @ [p, q, p]) \<noteq> None"
    by (intro draw_primes_live) simp_all
  then show "\<exists>res. generate_keys n_length precompute (primes @ [p, q, p]) = Some res"
    using L by (auto simp: generate_keys_def split: option.splits)
qed

theorem generate_keys_from_totient_witness:
  "generate_keys 6 False [5, 7, 5] = Some (Inr (pub35, priv35))
   \<and> bit_length (pk_n pub35) = 6
   \<and> sk_p priv35 = 5 \<and> sk_q priv35 = 7 \<and> pk_n pub35 = 35
   \<and> from_totient pub35 24 = Inr priv35"
proof -
  have pr: "\<forall>x\<in>set [5, 7, 5]. is_prime x" by (simp add: is_prime_5_7)
  from generate_keys_from_totient[of 6 "[5, 7, 5]" False] pr generate_keys_35
  have "bit_length (pk_n pub35) = 6
      \<and> from_totient pub35 ((sk_p priv35 - 1) * (sk_q priv35 - 1)) = Inr priv35"
    by (simp add: priv35_fields)
  moreover have "sk_p priv35 = 5" "sk_q priv35 = 7" "pk_n pub35 = 35"
    by (simp_all add: key35_simps)
  ultimately show ?thesis using generate_keys_35 by simp
qed

text \<open>
  C8 as stated fails for some bit lengths: for \<open>n_length = 0\<close> the loop is not entered
  and the call raises \<open>TypeError\<close>, with or without the table; for \<open>n_length = 5\<close> the
  primes of two bits, 2 and 3, never give a product of five bits, and the loop goes
  on as long as there are draws.
\<close>

theorem generate_keys_counterexample:
  "generate_keys 0 False [5, 7] = Some (Inl TypeError)
   \<and> generate_keys 0 True [5, 7] = Some (Inl TypeError)
   \<and> generate_keys 5 False [2, 3, 3, 2, 2, 3] = None"
  by (simp add: generate_keys_def bit_length_def bit_length_nat.simps)




end
